theory Spec2Isabelle
  imports Complex_Main
begin

section \<open>Scalars\<close>

text \<open>
  The matrix entries are C++ \<^verbatim>\<open>double\<close>s. They are modelled by exact real numbers
  extended with the IEEE special values that division by zero produces: \<open>Fin x\<close> is the
  number \<open>x\<close>, \<open>Infty True\<close> is \<open>+\<infinity>\<close>, \<open>Infty False\<close> is \<open>-\<infinity>\<close>, and \<open>NaN\<close> is
  not-a-number. Arithmetic on \<open>Fin\<close> values is exact: rounding, overflow and underflow
  of the 64-bit format are not modelled, and zero carries no sign (a division of a
  non-zero number by zero takes the sign of the numerator).
\<close>

datatype val = Fin real | Infty bool | NaN

fun vabs :: "val \<Rightarrow> val" where
  "vabs (Fin x) = Fin \<bar>x\<bar>"
| "vabs (Infty s) = Infty True"
| "vabs NaN = NaN"

text \<open>\<open>vless a b\<close> is the C++ comparison \<^verbatim>\<open>a < b\<close>: false whenever an operand is NaN.\<close>

fun vless :: "val \<Rightarrow> val \<Rightarrow> bool" where
  "vless (Fin x) (Fin y) = (x < y)"
| "vless (Fin x) (Infty t) = t"
| "vless (Infty s) (Fin y) = (\<not> s)"
| "vless (Infty s) (Infty t) = (\<not> s \<and> t)"
| "vless NaN b = False"
| "vless a NaN = False"

definition vgreater :: "val \<Rightarrow> val \<Rightarrow> bool" where
  "vgreater a b = vless b a"

fun vsub :: "val \<Rightarrow> val \<Rightarrow> val" where
  "vsub (Fin x) (Fin y) = Fin (x - y)"
| "vsub (Fin x) (Infty t) = Infty (\<not> t)"
| "vsub (Infty s) (Fin y) = Infty s"
| "vsub (Infty s) (Infty t) = (if s = t then NaN else Infty s)"
| "vsub NaN b = NaN"
| "vsub a NaN = NaN"

fun vmul :: "val \<Rightarrow> val \<Rightarrow> val" where
  "vmul (Fin x) (Fin y) = Fin (x * y)"
| "vmul (Fin x) (Infty t) = (if x = 0 then NaN else Infty ((0 < x) = t))"
| "vmul (Infty s) (Fin y) = (if y = 0 then NaN else Infty (s = (0 < y)))"
| "vmul (Infty s) (Infty t) = Infty (s = t)"
| "vmul NaN b = NaN"
| "vmul a NaN = NaN"

fun vdiv :: "val \<Rightarrow> val \<Rightarrow> val" where
  "vdiv (Fin x) (Fin y) =
     (if y \<noteq> 0 then Fin (x / y) else if x = 0 then NaN else Infty (0 < x))"
| "vdiv (Fin x) (Infty t) = Fin 0"
| "vdiv (Infty s) (Fin y) = Infty (s = (0 \<le> y))"
| "vdiv (Infty s) (Infty t) = NaN"
| "vdiv NaN b = NaN"
| "vdiv a NaN = NaN"

fun is_Fin :: "val \<Rightarrow> bool" where
  "is_Fin (Fin x) = True"
| "is_Fin (Infty s) = False"
| "is_Fin NaN = False"

section \<open>Exceptions\<close>

text \<open>
  \<^verbatim>\<open>LUMatrixException(e, i, j)\<close> carries an error number and two indices
  (both default to 0).
\<close>

datatype LUMatrixException = LUMatrixException (errno: int) (exn_i: int) (exn_j: int)

definition what :: "LUMatrixException \<Rightarrow> string" where
  "what e =
     (if errno e = 1 then ''bad matrix dimensions''
      else if errno e = 2 then ''index out of bounds''
      else if errno e = 3 then ''row index out of bounds''
      else if errno e = 4 then ''linearly dependent row detected''
      else if errno e = 5 then ''bad input''
      else ''unknown error'')"

abbreviation InvalidDimension :: "int \<Rightarrow> LUMatrixException" where
  "InvalidDimension n \<equiv> LUMatrixException 1 n 0"

abbreviation IndexOutOfBounds :: "int \<Rightarrow> int \<Rightarrow> LUMatrixException" where
  "IndexOutOfBounds i j \<equiv> LUMatrixException 2 i j"

abbreviation RowIndexOutOfBounds :: "int \<Rightarrow> LUMatrixException" where
  "RowIndexOutOfBounds r \<equiv> LUMatrixException 3 r 0"

abbreviation LinearlyDependentRow :: LUMatrixException where
  "LinearlyDependentRow \<equiv> LUMatrixException 4 0 0"

section \<open>The matrix object\<close>

text \<open>
  The private members of \<^verbatim>\<open>LUMatrix\<close>. The array of row pointers \<^verbatim>\<open>_matrix\<close> is a
  list of rows; each row is a separate allocation, so rows never alias. Indices and
  \<^verbatim>\<open>_dim\<close> are natural numbers (the constructor leaves \<^verbatim>\<open>_dim\<close> at 0 when it rejects
  its argument). \<^verbatim>\<open>_swaps\<close> is a 32-bit \<^verbatim>\<open>int\<close>: an integer here, with the wrap-around
  of its increment written out in \<open>interchange\<close>.
\<close>

record lumatrix =
  m_dim :: nat
  m_swaps :: int
  m_order :: "nat list"
  m_tolerance :: val
  m_matrix :: "val list list"

text \<open>
  What the constructor establishes for \<open>n \<ge> 1\<close>: \<open>n\<close> rows of \<open>n\<close> entries each, and a
  permutation buffer of \<open>n\<close> entries.
\<close>

definition well_formed :: "lumatrix \<Rightarrow> bool" where
  "well_formed s \<longleftrightarrow>
     length (m_matrix s) = m_dim s \<and>
     list_all (\<lambda>row. length row = m_dim s) (m_matrix s) \<and>
     length (m_order s) = m_dim s"

text \<open>
  The constructor \<^verbatim>\<open>LUMatrix(n)\<close>. For \<open>n < 1\<close> it throws \<^verbatim>\<open>LUMatrixException(1, n)\<close>,
  which its own handler prints, and leaves an empty object. Otherwise it sets \<^verbatim>\<open>_dim\<close>
  and \<^verbatim>\<open>_swaps\<close> and allocates the rows and the permutation buffer without initialising
  them; \<^verbatim>\<open>_tolerance\<close> is never initialised. The contents of the uninitialised memory are
  the arguments \<open>mem_matrix\<close>, \<open>mem_order\<close> and \<open>mem_tolerance\<close>. The input operator
  \<^verbatim>\<open>>>\<close> then writes matrix entries only.
\<close>

definition LUMatrix_new ::
  "int \<Rightarrow> (nat \<Rightarrow> nat \<Rightarrow> val) \<Rightarrow> (nat \<Rightarrow> nat) \<Rightarrow> val \<Rightarrow> lumatrix \<times> LUMatrixException option" where
  "LUMatrix_new n mem_matrix mem_order mem_tolerance =
     (if n < 1
      then (\<lparr>m_dim = 0, m_swaps = 0, m_order = [], m_tolerance = mem_tolerance,
             m_matrix = []\<rparr>,
            Some (InvalidDimension n))
      else (\<lparr>m_dim = nat n, m_swaps = 0, m_order = map mem_order [0..<nat n],
             m_tolerance = mem_tolerance,
             m_matrix = map (\<lambda>i. map (mem_matrix i) [0..<nat n]) [0..<nat n]\<rparr>,
            None))"

subsection \<open>Row interchange\<close>

definition rswap :: "lumatrix \<Rightarrow> nat \<Rightarrow> nat \<Rightarrow> lumatrix" where
  "rswap s i j =
     s\<lparr>m_matrix := (m_matrix s)[i := m_matrix s ! j, j := m_matrix s ! i]\<rparr>"

subsection \<open>Pivot selection\<close>

text \<open>
  The inner loop of \<^verbatim>\<open>index_best\<close>: \<open>row_max_loop row j n rm\<close> runs the columns
  \<open>j, j+1, \<dots>, n-1\<close> of a row with the running maximum \<open>rm\<close>.
\<close>

function row_max_loop :: "val list \<Rightarrow> nat \<Rightarrow> nat \<Rightarrow> val \<Rightarrow> val" where
  "row_max_loop row j n rm =
     (if j < n
      then row_max_loop row (Suc j) n
             (if vgreater (vabs (row ! j)) rm then vabs (row ! j) else rm)
      else rm)"
  by pat_completeness auto
termination
  by (relation "measure (\<lambda>(row, j, n, rm). n - j)") auto

declare row_max_loop.simps [simp del]

definition row_max :: "lumatrix \<Rightarrow> nat \<Rightarrow> nat \<Rightarrow> val" where
  "row_max s i index_pivot =
     row_max_loop (m_matrix s ! i) index_pivot (m_dim s)
       (vabs (m_matrix s ! i ! index_pivot))"

text \<open>
  The outer loop of \<^verbatim>\<open>index_best\<close> from row \<open>i\<close> on, with the current \<open>index\<close> and
  \<open>best\<close>; \<open>Inl\<close> is the exception thrown.
\<close>

function index_best_loop ::
  "lumatrix \<Rightarrow> nat \<Rightarrow> nat \<Rightarrow> nat \<Rightarrow> val \<Rightarrow> LUMatrixException + nat" where
  "index_best_loop s index_pivot i index best =
     (if i < m_dim s
      then (let rm = row_max s i index_pivot in
            if vless rm (m_tolerance s) then Inl LinearlyDependentRow
            else if vgreater (vdiv (vabs (m_matrix s ! i ! index_pivot)) rm) best
            then index_best_loop s index_pivot (Suc i) i
                   (vabs (vdiv (m_matrix s ! i ! index_pivot) rm))
            else index_best_loop s index_pivot (Suc i) index best)
      else Inr index)"
  by pat_completeness auto
termination
  by (relation "measure (\<lambda>(s, index_pivot, i, index, best). m_dim s - i)") auto

declare index_best_loop.simps [simp del]

definition index_best :: "lumatrix \<Rightarrow> nat \<Rightarrow> LUMatrixException + nat" where
  "index_best s index_pivot = index_best_loop s index_pivot index_pivot index_pivot (Fin 0)"

subsection \<open>Elimination\<close>

text \<open>The column loop: \<^verbatim>\<open>_matrix[row_elim][col] -= c * _matrix[pivot][col]\<close>.\<close>

function elim_cols :: "val \<Rightarrow> val list \<Rightarrow> val list \<Rightarrow> nat \<Rightarrow> nat \<Rightarrow> val list" where
  "elim_cols c prow row col n =
     (if col < n
      then elim_cols c prow (row[col := vsub (row ! col) (vmul c (prow ! col))]) (Suc col) n
      else row)"
  by pat_completeness auto
termination
  by (relation "measure (\<lambda>(c, prow, row, col, n). n - col)") auto

declare elim_cols.simps [simp del]

text \<open>The row loop of the elimination, from row \<open>row_elim\<close> on.\<close>

function elim_rows :: "val list list \<Rightarrow> nat \<Rightarrow> nat \<Rightarrow> nat \<Rightarrow> val list list" where
  "elim_rows m pivot row_elim n =
     (if row_elim < n
      then (let c = vdiv (m ! row_elim ! pivot) (m ! pivot ! pivot);
                row = elim_cols c (m ! pivot) (m ! row_elim) (Suc pivot) n
            in elim_rows (m[row_elim := row[pivot := c]]) pivot (Suc row_elim) n)
      else m)"
  by pat_completeness auto
termination
  by (relation "measure (\<lambda>(m, pivot, row_elim, n). n - row_elim)") auto

declare elim_rows.simps [simp del]

definition eliminate :: "lumatrix \<Rightarrow> nat \<Rightarrow> lumatrix" where
  "eliminate s pivot = s\<lparr>m_matrix := elim_rows (m_matrix s) pivot (Suc pivot) (m_dim s)\<rparr>"

subsection \<open>Decomposition\<close>

text \<open>The first loop of \<^verbatim>\<open>decompose\<close>: \<^verbatim>\<open>_order[i] = i\<close>.\<close>

function init_order :: "nat list \<Rightarrow> nat \<Rightarrow> nat \<Rightarrow> nat list" where
  "init_order ord i n = (if i < n then init_order (ord[i := i]) (Suc i) n else ord)"
  by pat_completeness auto
termination
  by (relation "measure (\<lambda>(ord, i, n). n - i)") auto

declare init_order.simps [simp del]

text \<open>
  \<^verbatim>\<open>++_swaps\<close> on the 32-bit \<^verbatim>\<open>int\<close>. At \<^verbatim>\<open>INT_MAX\<close> the increment overflows, which C++
  leaves undefined; the value here is the two's-complement result of the machine
  increment.
\<close>

definition increment_int :: "int \<Rightarrow> int" where
  "increment_int x = (if x = 2147483647 then - 2147483648 else x + 1)"

text \<open>The interchange of one pivot step, taken when \<^verbatim>\<open>swap != pivot\<close>.\<close>

definition interchange :: "lumatrix \<Rightarrow> nat \<Rightarrow> nat \<Rightarrow> lumatrix" where
  "interchange s pivot swap =
     (let s1 = rswap s pivot swap in
      s1\<lparr>m_order := (m_order s1)[pivot := m_order s1 ! swap, swap := m_order s1 ! pivot],
         m_swaps := increment_int (m_swaps s1)\<rparr>)"

text \<open>
  The body of the pivot loop. \<open>Inl\<close> is the exception that leaves the loop; the object
  is then as it was before this step.
\<close>

definition pivot_step :: "lumatrix \<Rightarrow> nat \<Rightarrow> LUMatrixException + lumatrix" where
  "pivot_step s pivot =
     (case index_best s pivot of
        Inl e \<Rightarrow> Inl e
      | Inr swap \<Rightarrow>
          Inr (eliminate (if swap \<noteq> pivot then interchange s pivot swap else s) pivot))"

lemma eliminate_dim [simp]: "m_dim (eliminate s pivot) = m_dim s"
  by (simp add: eliminate_def)

lemma interchange_dim [simp]: "m_dim (interchange s pivot swap) = m_dim s"
  by (simp add: interchange_def rswap_def Let_def)

lemma pivot_step_dim: "pivot_step s pivot = Inr s' \<Longrightarrow> m_dim s' = m_dim s"
  by (cases "index_best s pivot") (auto simp: pivot_step_def)

text \<open>
  The pivot loop from \<open>pivot\<close> on. The result is the object when \<^verbatim>\<open>decompose\<close> returns
  and the exception its handler caught and printed, if any.
\<close>

function pivot_loop :: "lumatrix \<Rightarrow> nat \<Rightarrow> lumatrix \<times> LUMatrixException option" where
  "pivot_loop s pivot =
     (if pivot < m_dim s
      then (case pivot_step s pivot of
              Inl e \<Rightarrow> (s, Some e)
            | Inr s' \<Rightarrow> pivot_loop s' (Suc pivot))
      else (s, None))"
  by pat_completeness auto
termination
proof (relation "measure (\<lambda>(s, pivot). m_dim s - pivot)")
  show "wf (measure (\<lambda>(s, pivot). m_dim s - pivot))"
    by simp
next
  fix s :: lumatrix and pivot :: nat and s' :: lumatrix
  assume "pivot < m_dim s" and "pivot_step s pivot = Inr s'"
  then show "((s', Suc pivot), (s, pivot)) \<in> measure (\<lambda>(s, pivot). m_dim s - pivot)"
    by (simp add: pivot_step_dim)
qed

declare pivot_loop.simps [simp del]

text \<open>
  \<^verbatim>\<open>decompose(tolerance)\<close>. It returns nothing: the result here is the object
  afterwards, with the exception its \<^verbatim>\<open>catch\<close> block printed (\<open>None\<close> when the pivot
  loop ran to its end). \<^verbatim>\<open>_swaps\<close> is not reset: only the constructor sets it to 0.
\<close>

definition decompose_init :: "val \<Rightarrow> lumatrix \<Rightarrow> lumatrix" where
  "decompose_init tolerance s =
     s\<lparr>m_tolerance := (if vless tolerance (Fin 0) then Fin (1 / 1024) else tolerance),
       m_order := init_order (m_order s) 0 (m_dim s)\<rparr>"

definition decompose :: "val \<Rightarrow> lumatrix \<Rightarrow> lumatrix \<times> LUMatrixException option" where
  "decompose tolerance s = pivot_loop (decompose_init tolerance s) 0"

subsection \<open>Element access\<close>

text \<open>
  \<^verbatim>\<open>double& at(i, j)\<close>. The body is one \<^verbatim>\<open>try\<close> block that throws when an index is
  out of range, and its handler, which prints the exception. Neither path has a
  \<^verbatim>\<open>return\<close>: control reaches the closing brace of the function. The result is the
  exception printed, if any, and the slot \<open>(row, column)\<close> returned, if any.
\<close>

definition at_slot :: "lumatrix \<Rightarrow> int \<Rightarrow> int \<Rightarrow> LUMatrixException option \<times> (nat \<times> nat) option" where
  "at_slot s i j =
     (if i < 1 \<or> j < 1 \<or> i \<ge> int (m_dim s) \<or> j \<ge> int (m_dim s)
      then (Some (IndexOutOfBounds i j), None)
      else (None, None))"


subsection \<open>Observations on a run\<close>

text \<open>
  \<open>zero_pivot s pivot\<close>: the elimination of the step \<open>pivot\<close>, run on \<open>s\<close> (the object
  after the interchange), divides by a zero pivot: there is a row below the pivot row,
  so \<^verbatim>\<open>_matrix[row_elim][pivot] / _matrix[pivot][pivot]\<close> is computed, and the divisor is 0.
\<close>

definition zero_pivot :: "lumatrix \<Rightarrow> nat \<Rightarrow> bool" where
  "zero_pivot s pivot \<longleftrightarrow> Suc pivot < m_dim s \<and> m_matrix s ! pivot ! pivot = Fin 0"

text \<open>
  Whether some step of the pivot loop, from \<open>pivot\<close> on, divides by a zero pivot. The
  recursion is that of \<open>pivot_loop\<close>.
\<close>

function divides_by_zero_pivot :: "lumatrix \<Rightarrow> nat \<Rightarrow> bool" where
  "divides_by_zero_pivot s pivot =
     (if pivot < m_dim s
      then (case index_best s pivot of
              Inl e \<Rightarrow> False
            | Inr swap \<Rightarrow>
                (let s1 = (if swap \<noteq> pivot then interchange s pivot swap else s) in
                 zero_pivot s1 pivot \<or> divides_by_zero_pivot (eliminate s1 pivot) (Suc pivot)))
      else False)"
  by pat_completeness auto
termination
  by (relation "measure (\<lambda>(s, pivot). m_dim s - pivot)") auto

declare divides_by_zero_pivot.simps [simp del]

text \<open>
  \<open>steps s k\<close>: the object after the pivot steps \<open>0, \<dots>, k-1\<close>, or the exception that one
  of them threw.
\<close>

fun steps :: "lumatrix \<Rightarrow> nat \<Rightarrow> LUMatrixException + lumatrix" where
  "steps s 0 = Inr s"
| "steps s (Suc k) = (case steps s k of Inl e \<Rightarrow> Inl e | Inr s' \<Rightarrow> pivot_step s' k)"

text \<open>
  The part of the loop body under the comment \<^verbatim>\<open>// swap\<close>: the object handed to the
  elimination, or the exception of \<^verbatim>\<open>index_best\<close>.
\<close>

definition swap_part :: "lumatrix \<Rightarrow> nat \<Rightarrow> LUMatrixException + lumatrix" where
  "swap_part s pivot =
     (case index_best s pivot of
        Inl e \<Rightarrow> Inl e
      | Inr swap \<Rightarrow> Inr (if swap \<noteq> pivot then interchange s pivot swap else s))"

text \<open>
  An actual row interchange, seen on the rows alone: \<open>m'\<close> is \<open>m\<close> with two rows at
  different positions, and of different contents, exchanged.
\<close>

definition rows_exchanged :: "val list list \<Rightarrow> val list list \<Rightarrow> bool" where
  "rows_exchanged m m' \<longleftrightarrow>
     (\<exists>i\<in>{0..<length m}. \<exists>j\<in>{0..<length m}.
        i \<noteq> j \<and> m ! i \<noteq> m ! j \<and> m' = m[i := m ! j, j := m ! i])"

text \<open>
  The number of actual row interchanges of the pivot loop from \<open>pivot\<close> on: the steps
  whose swap part hands to the elimination a matrix with two rows exchanged.
\<close>

function actual_interchanges :: "lumatrix \<Rightarrow> nat \<Rightarrow> nat" where
  "actual_interchanges s pivot =
     (if pivot < m_dim s
      then (case swap_part s pivot of
              Inl e \<Rightarrow> 0
            | Inr s1 \<Rightarrow>
                (if rows_exchanged (m_matrix s) (m_matrix s1) then 1 else 0) +
                actual_interchanges (eliminate s1 pivot) (Suc pivot))
      else 0)"
  by pat_completeness auto
termination
proof (relation "measure (\<lambda>(s, pivot). m_dim s - pivot)")
  show "wf (measure (\<lambda>(s, pivot). m_dim s - pivot))"
    by simp
next
  fix s :: lumatrix and pivot :: nat and s1 :: lumatrix
  assume "pivot < m_dim s" and "swap_part s pivot = Inr s1"
  then have "m_dim s1 = m_dim s"
    by (cases "index_best s pivot") (auto simp: swap_part_def)
  with \<open>pivot < m_dim s\<close>
  show "((eliminate s1 pivot, Suc pivot), (s, pivot)) \<in> measure (\<lambda>(s, pivot). m_dim s - pivot)"
    by simp
qed

declare actual_interchanges.simps [simp del]

text \<open>\<open>ord\<close> lists every index below \<open>n\<close> exactly once: a bijection on \<open>[0, n)\<close>.\<close>

definition is_permutation :: "nat list \<Rightarrow> nat \<Rightarrow> bool" where
  "is_permutation ord n \<longleftrightarrow> length ord = n \<and> distinct ord \<and> set ord = {0..<n}"

subsection \<open>Matrices of real numbers\<close>

text \<open>
  The words of the specification, on a matrix \<open>A\<close> of real numbers with \<open>n\<close> columns: the
  maximum absolute value of row \<open>i\<close> over the columns \<open>[p, n)\<close>, and the ratio of the
  absolute pivot-column entry to it. (For a row of zeros the code computes \<open>0/0\<close>, a NaN
  that no comparison finds greater; the ratio here is 0 then, which no comparison with
  a non-negative \<open>best\<close> finds greater either.)
\<close>

definition abs_row_max :: "real list list \<Rightarrow> nat \<Rightarrow> nat \<Rightarrow> nat \<Rightarrow> real" where
  "abs_row_max A n i p = Max ((\<lambda>j. \<bar>A ! i ! j\<bar>) ` {p..<n})"

definition ratio :: "real list list \<Rightarrow> nat \<Rightarrow> nat \<Rightarrow> nat \<Rightarrow> real" where
  "ratio A n i p = \<bar>A ! i ! p\<bar> / abs_row_max A n i p"

text \<open>\<open>A\<close> has \<open>n\<close> rows of \<open>n\<close> entries; \<open>represents s A\<close>: the entries of the object \<open>s\<close> are the numbers of \<open>A\<close>.\<close>

definition square :: "real list list \<Rightarrow> nat \<Rightarrow> bool" where
  "square A n \<longleftrightarrow> length A = n \<and> list_all (\<lambda>row. length row = n) A"

definition represents :: "lumatrix \<Rightarrow> real list list \<Rightarrow> bool" where
  "represents s A \<longleftrightarrow> m_matrix s = map (map Fin) A \<and> square A (m_dim s)"

text \<open>
  Row \<open>k\<close> has the largest ratio among the rows \<open>[p, n)\<close>, and every earlier row has a
  strictly smaller one.
\<close>

definition earliest_max :: "real list list \<Rightarrow> nat \<Rightarrow> nat \<Rightarrow> nat \<Rightarrow> bool" where
  "earliest_max A n p k \<longleftrightarrow>
     p \<le> k \<and> k < n \<and>
     (\<forall>i\<in>{p..<n}. ratio A n i p \<le> ratio A n k p) \<and>
     (\<forall>i\<in>{p..<k}. ratio A n i p < ratio A n k p)"

text \<open>Every entry of row \<open>i\<close> multiplied by \<open>k\<close>.\<close>

definition scale_row :: "lumatrix \<Rightarrow> nat \<Rightarrow> real \<Rightarrow> lumatrix" where
  "scale_row s i k = s\<lparr>m_matrix := (m_matrix s)[i := map (vmul (Fin k)) (m_matrix s ! i)]\<rparr>"

text \<open>The \<open>n\<close>-by-\<open>n\<close> identity matrix.\<close>

definition identity_matrix :: "nat \<Rightarrow> real list list" where
  "identity_matrix n = map (\<lambda>i. map (\<lambda>j. if i = j then 1 else 0) [0..<n]) [0..<n]"

subsection \<open>Pivot selection with rounded divisions\<close>

text \<open>
  The rounding of the double format: \<open>rd x\<close> is the double nearest to the real number
  \<open>x\<close>. Only two properties of it are used: it is symmetric, and it keeps the sign.
\<close>

definition rounding :: "(real \<Rightarrow> real) \<Rightarrow> bool" where
  "rounding rd \<longleftrightarrow> (\<forall>x. rd (- x) = - rd x) \<and> (\<forall>x. 0 \<le> x \<longrightarrow> 0 \<le> rd x)"

text \<open>
  The double division with the quotient rounded by \<open>rd\<close>. (A quotient too large for the
  format would be infinite; \<^verbatim>\<open>index_best\<close> divides an entry by the maximum of its row, a
  quotient of magnitude at most 1.)
\<close>

fun vdiv_fl :: "(real \<Rightarrow> real) \<Rightarrow> val \<Rightarrow> val \<Rightarrow> val" where
  "vdiv_fl rd (Fin x) (Fin y) =
     (if y \<noteq> 0 then Fin (rd (x / y)) else if x = 0 then NaN else Infty (0 < x))"
| "vdiv_fl rd (Fin x) (Infty t) = Fin 0"
| "vdiv_fl rd (Infty s) (Fin y) = Infty (s = (0 \<le> y))"
| "vdiv_fl rd (Infty s) (Infty t) = NaN"
| "vdiv_fl rd NaN b = NaN"
| "vdiv_fl rd a NaN = NaN"

text \<open>\<^verbatim>\<open>index_best\<close> with rounded divisions.\<close>

function index_best_loop_fl ::
  "(real \<Rightarrow> real) \<Rightarrow> lumatrix \<Rightarrow> nat \<Rightarrow> nat \<Rightarrow> nat \<Rightarrow> val \<Rightarrow> LUMatrixException + nat" where
  "index_best_loop_fl rd s index_pivot i index best =
     (if i < m_dim s
      then (let rm = row_max s i index_pivot in
            if vless rm (m_tolerance s) then Inl LinearlyDependentRow
            else if vgreater (vdiv_fl rd (vabs (m_matrix s ! i ! index_pivot)) rm) best
            then index_best_loop_fl rd s index_pivot (Suc i) i
                   (vabs (vdiv_fl rd (m_matrix s ! i ! index_pivot) rm))
            else index_best_loop_fl rd s index_pivot (Suc i) index best)
      else Inr index)"
  by pat_completeness auto
termination
  by (relation "measure (\<lambda>(rd, s, index_pivot, i, index, best). m_dim s - i)") auto

declare index_best_loop_fl.simps [simp del]

definition index_best_fl :: "(real \<Rightarrow> real) \<Rightarrow> lumatrix \<Rightarrow> nat \<Rightarrow> LUMatrixException + nat" where
  "index_best_fl rd s index_pivot =
     index_best_loop_fl rd s index_pivot index_pivot index_pivot (Fin 0)"

section \<open>Example objects\<close>

text \<open>
  Objects as they are after construction and input. The constructor leaves
  \<^verbatim>\<open>_order\<close> and \<^verbatim>\<open>_tolerance\<close> uninitialised; the examples put zeros there.
\<close>

definition object_of :: "real list list \<Rightarrow> lumatrix" where
  "object_of A =
     \<lparr>m_dim = length A, m_swaps = 0, m_order = replicate (length A) 0,
      m_tolerance = Fin 0, m_matrix = map (map Fin) A\<rparr>"

section \<open>The setup of \<^verbatim>\<open>decompose\<close>\<close>

lemma init_order_gen:
  "i \<le> n \<Longrightarrow> length ord = n \<Longrightarrow> init_order ord i n = take i ord @ [i..<n]"
proof (induction ord i n rule: init_order.induct)
  case (1 ord i n)
  show ?case
  proof (cases "i < n")
    case True
    with 1 have "init_order (ord[i := i]) (Suc i) n = take (Suc i) (ord[i := i]) @ [Suc i..<n]"
      by simp
    with True 1 show ?thesis
      by (subst init_order.simps) (simp add: take_Suc_conv_app_nth upt_conv_Cons)
  next
    case False
    with 1 show ?thesis by (subst init_order.simps) simp
  qed
qed

lemma init_order_identity: "length ord = n \<Longrightarrow> init_order ord 0 n = [0..<n]"
  by (simp add: init_order_gen)

lemma pivot_step_tolerance:
  "pivot_step s pivot = Inr s' \<Longrightarrow> m_tolerance s' = m_tolerance s"
  by (cases "index_best s pivot")
     (auto simp: pivot_step_def eliminate_def interchange_def rswap_def Let_def)

lemma pivot_loop_tolerance: "m_tolerance (fst (pivot_loop s pivot)) = m_tolerance s"
proof (induction s pivot rule: pivot_loop.induct)
  case (1 s pivot)
  show ?case
  proof (cases "pivot < m_dim s")
    case True
    show ?thesis
    proof (cases "pivot_step s pivot")
      case (Inl e)
      with True show ?thesis by (subst pivot_loop.simps) simp
    next
      case (Inr s')
      with True 1 show ?thesis
        by (subst pivot_loop.simps) (simp add: pivot_step_tolerance)
    qed
  next
    case False
    then show ?thesis by (subst pivot_loop.simps) simp
  qed
qed

section \<open>Tolerance zero\<close>

lemma vabs_not_negative: "\<not> vless (vabs x) (Fin 0)"
  by (cases x) simp_all

lemma row_max_loop_not_negative:
  "\<not> vless rm (Fin 0) \<Longrightarrow> \<not> vless (row_max_loop row j n rm) (Fin 0)"
proof (induction row j n rm rule: row_max_loop.induct)
  case (1 row j n rm)
  show ?case
  proof (cases "j < n")
    case True
    with 1 show ?thesis
      by (subst row_max_loop.simps) (simp add: vabs_not_negative)
  next
    case False
    with 1 show ?thesis by (subst row_max_loop.simps) simp
  qed
qed

lemma row_max_not_negative: "\<not> vless (row_max s i p) (Fin 0)"
  by (simp add: row_max_def row_max_loop_not_negative vabs_not_negative)

lemma index_best_loop_tolerance_0:
  "m_tolerance s = Fin 0 \<Longrightarrow> \<exists>k. index_best_loop s p i index best = Inr k"
proof (induction s p i index best rule: index_best_loop.induct)
  case (1 s p i index best)
  show ?case
  proof (cases "i < m_dim s")
    case True
    with 1 show ?thesis
      by (subst index_best_loop.simps) (simp add: row_max_not_negative Let_def)
  next
    case False
    then show ?thesis by (subst index_best_loop.simps) simp
  qed
qed

lemma pivot_step_tolerance_0:
  "m_tolerance s = Fin 0 \<Longrightarrow> \<exists>s'. pivot_step s pivot = Inr s'"
  using index_best_loop_tolerance_0 [of s pivot pivot pivot "Fin 0"]
  by (auto simp: pivot_step_def index_best_def)

lemma pivot_loop_tolerance_0:
  "m_tolerance s = Fin 0 \<Longrightarrow> snd (pivot_loop s pivot) = None"
proof (induction s pivot rule: pivot_loop.induct)
  case (1 s pivot)
  show ?case
  proof (cases "pivot < m_dim s")
    case True
    from "1.prems" obtain s' where s': "pivot_step s pivot = Inr s'"
      using pivot_step_tolerance_0 by blast
    then have "m_tolerance s' = Fin 0"
      using "1.prems" by (simp add: pivot_step_tolerance)
    with 1 True s' show ?thesis
      by (subst pivot_loop.simps) simp
  next
    case False
    then show ?thesis by (subst pivot_loop.simps) simp
  qed
qed

section \<open>Swap count and permutation\<close>

lemma index_best_loop_range:
  "index_best_loop s p i index best = Inr k \<Longrightarrow> index < m_dim s \<Longrightarrow> k < m_dim s"
proof (induction s p i index best rule: index_best_loop.induct)
  case (1 s p i index best)
  show ?case
  proof (cases "i < m_dim s")
    case True
    with 1 show ?thesis
      by (subst (asm) index_best_loop.simps) (simp add: Let_def split: if_splits)
  next
    case False
    with 1 show ?thesis by (subst (asm) index_best_loop.simps) simp
  qed
qed

lemma index_best_range: "index_best s p = Inr k \<Longrightarrow> p < m_dim s \<Longrightarrow> k < m_dim s"
  unfolding index_best_def by (rule index_best_loop_range)

lemma eliminate_order [simp]: "m_order (eliminate s p) = m_order s"
  by (simp add: eliminate_def)

lemma eliminate_swaps [simp]: "m_swaps (eliminate s p) = m_swaps s"
  by (simp add: eliminate_def)

lemma interchange_order [simp]:
  "m_order (interchange s p k) = (m_order s)[p := m_order s ! k, k := m_order s ! p]"
  by (simp add: interchange_def rswap_def Let_def)

lemma is_permutation_swap:
  "is_permutation ord n \<Longrightarrow> i < n \<Longrightarrow> j < n \<Longrightarrow>
   is_permutation (ord[i := ord ! j, j := ord ! i]) n"
  by (simp add: is_permutation_def distinct_swap)

lemma pivot_step_permutation:
  assumes "pivot_step s p = Inr s'" "p < m_dim s" "is_permutation (m_order s) (m_dim s)"
  shows "is_permutation (m_order s') (m_dim s')"
proof (cases "index_best s p")
  case (Inl e)
  with assms show ?thesis by (simp add: pivot_step_def)
next
  case (Inr k)
  then have "k < m_dim s" using assms(2) by (rule index_best_range)
  with Inr assms show ?thesis
    by (auto simp: pivot_step_def is_permutation_swap)
qed

lemma steps_dim: "steps s k = Inr s' \<Longrightarrow> m_dim s' = m_dim s"
proof (induction k arbitrary: s')
  case 0
  then show ?case by simp
next
  case (Suc k)
  then show ?case
    by (cases "steps s k") (auto dest: pivot_step_dim)
qed

lemma steps_permutation:
  "steps s k = Inr s' \<Longrightarrow> k \<le> m_dim s \<Longrightarrow> is_permutation (m_order s) (m_dim s) \<Longrightarrow>
   is_permutation (m_order s') (m_dim s)"
proof (induction k arbitrary: s')
  case 0
  then show ?case by simp
next
  case (Suc k)
  show ?case
  proof (cases "steps s k")
    case (Inl e)
    with Suc.prems show ?thesis by simp
  next
    case (Inr sk)
    with Suc have perm: "is_permutation (m_order sk) (m_dim s)" by simp
    from Inr have dim: "m_dim sk = m_dim s" by (rule steps_dim)
    from Inr Suc.prems have step: "pivot_step sk k = Inr s'" by simp
    from pivot_step_permutation [OF step] perm dim Suc.prems(2)
    have "is_permutation (m_order s') (m_dim s')" by simp
    with pivot_step_dim [OF step] dim show ?thesis by simp
  qed
qed

lemma steps_pivot_loop:
  "steps s k = Inr sk \<Longrightarrow> k \<le> m_dim s \<Longrightarrow> pivot_loop s 0 = pivot_loop sk k"
proof (induction k arbitrary: sk)
  case 0
  then show ?case by simp
next
  case (Suc k)
  show ?case
  proof (cases "steps s k")
    case (Inl e)
    with Suc.prems show ?thesis by simp
  next
    case (Inr s')
    with Suc.prems have step: "pivot_step s' k = Inr sk" by simp
    from Inr have "m_dim s' = m_dim s" by (rule steps_dim)
    with Suc.prems have "k < m_dim s'" by simp
    with step have "pivot_loop s' k = pivot_loop sk (Suc k)"
      by (subst pivot_loop.simps) simp
    with Suc.IH [OF Inr] Suc.prems show ?thesis by simp
  qed
qed

lemma decompose_init_permutation:
  "length (m_order s) = m_dim s \<Longrightarrow>
   is_permutation (m_order (decompose_init t s)) (m_dim (decompose_init t s))"
  by (simp add: decompose_init_def init_order_identity is_permutation_def)

lemma pivot_loop_permutation:
  "is_permutation (m_order s) (m_dim s) \<Longrightarrow>
   is_permutation (m_order (fst (pivot_loop s pivot))) (m_dim s)"
proof (induction s pivot rule: pivot_loop.induct)
  case (1 s pivot)
  show ?case
  proof (cases "pivot < m_dim s")
    case False
    with 1 show ?thesis by (subst pivot_loop.simps) simp
  next
    case True
    show ?thesis
    proof (cases "pivot_step s pivot")
      case (Inl e)
      with True 1 show ?thesis by (subst pivot_loop.simps) simp
    next
      case (Inr s')
      from pivot_step_permutation [OF Inr True "1.prems"] pivot_step_dim [OF Inr]
      have "is_permutation (m_order s') (m_dim s)" and "m_dim s' = m_dim s" by simp_all
      with "1.IH" [OF True Inr] True Inr show ?thesis
        by (subst pivot_loop.simps) simp
    qed
  qed
qed

subsection \<open>A selected row differs from the pivot row\<close>

lemma vless_irrefl: "\<not> vless a a"
  by (cases a) simp_all

lemma vless_trans: "vless a b \<Longrightarrow> vless b c \<Longrightarrow> vless a c"
  by (cases a; cases b; cases c) simp_all

lemma vabs_vdiv: "\<not> vless rm (Fin 0) \<Longrightarrow> vabs (vdiv x rm) = vdiv (vabs x) rm"
  by (cases x; cases rm) (auto simp: abs_if divide_simps split: if_splits)

text \<open>One iteration of the loop of \<^verbatim>\<open>index_best\<close>, whatever the entries.\<close>

lemma index_best_loop_step:
  assumes "i < m_dim s"
  shows "index_best_loop s p i index best =
         (if vless (row_max s i p) (m_tolerance s) then Inl LinearlyDependentRow
          else if vless best (vdiv (vabs (m_matrix s ! i ! p)) (row_max s i p))
          then index_best_loop s p (Suc i) i (vdiv (vabs (m_matrix s ! i ! p)) (row_max s i p))
          else index_best_loop s p (Suc i) index best)"
  using assms
  by (subst index_best_loop.simps)
     (simp add: Let_def vgreater_def vabs_vdiv row_max_not_negative del: vabs.simps vdiv.simps)

lemma index_best_loop_improves:
  "index_best_loop s p i index best = Inr k \<Longrightarrow>
   k = index \<or> vless best (vdiv (vabs (m_matrix s ! k ! p)) (row_max s k p))"
proof (induction "m_dim s - i" arbitrary: i index best)
  case 0
  then show ?case by (subst (asm) index_best_loop.simps) simp
next
  case (Suc d)
  then have i: "i < m_dim s" and d: "d = m_dim s - Suc i" by simp_all
  let ?q = "vdiv (vabs (m_matrix s ! i ! p)) (row_max s i p)"
  note step = index_best_loop_step [OF i, of p index best]
  show ?case
  proof (cases "vless (row_max s i p) (m_tolerance s)")
    case True
    with Suc.prems step show ?thesis by simp
  next
    case False
    show ?thesis
    proof (cases "vless best ?q")
      case True
      with False Suc.prems step have "index_best_loop s p (Suc i) i ?q = Inr k" by simp
      from Suc.hyps(1) [OF d this]
      show ?thesis
      proof
        assume "k = i"
        with True show ?thesis by simp
      next
        assume "vless ?q (vdiv (vabs (m_matrix s ! k ! p)) (row_max s k p))"
        with True show ?thesis by (blast intro: vless_trans)
      qed
    next
      case no: False
      with False Suc.prems step have "index_best_loop s p (Suc i) index best = Inr k" by simp
      from Suc.hyps(1) [OF d this] show ?thesis .
    qed
  qed
qed

lemma selected_row_differs:
  assumes "index_best s p = Inr k" "k \<noteq> p"
  shows "m_matrix s ! k \<noteq> m_matrix s ! p"
proof
  assume same: "m_matrix s ! k = m_matrix s ! p"
  let ?q = "\<lambda>r. vdiv (vabs (m_matrix s ! r ! p)) (row_max s r p)"
  from same have q: "?q k = ?q p" by (simp add: row_max_def)
  have p: "p < m_dim s"
  proof (rule ccontr)
    assume "\<not> p < m_dim s"
    with assms(1) have "k = p"
      unfolding index_best_def by (subst (asm) index_best_loop.simps) simp
    with assms(2) show False by simp
  qed
  note step = index_best_loop_step [OF p, of p p "Fin 0"]
  from assms(1) have res: "index_best_loop s p p p (Fin 0) = Inr k"
    by (simp add: index_best_def)
  show False
  proof (cases "vless (row_max s p p) (m_tolerance s)")
    case True
    with res step show False by simp
  next
    case False
    show False
    proof (cases "vless (Fin 0) (?q p)")
      case True
      with False res step have "index_best_loop s p (Suc p) p (?q p) = Inr k" by simp
      from index_best_loop_improves [OF this] assms(2) have "vless (?q p) (?q k)" by simp
      with q show False by (simp add: vless_irrefl)
    next
      case no: False
      with False res step have "index_best_loop s p (Suc p) p (Fin 0) = Inr k" by simp
      from index_best_loop_improves [OF this] assms(2) have "vless (Fin 0) (?q k)" by simp
      with q no show False by simp
    qed
  qed
qed

lemma rows_exchanged_swap:
  assumes "i < length m" "j < length m" "i \<noteq> j" "m ! i \<noteq> m ! j"
  shows "rows_exchanged m (m[i := m ! j, j := m ! i])"
proof -
  from assms have "i \<in> {0..<length m}" and "j \<in> {0..<length m}" by simp_all
  moreover have "i \<noteq> j \<and> m ! i \<noteq> m ! j \<and> m[i := m ! j, j := m ! i] = m[i := m ! j, j := m ! i]"
    using assms by simp
  ultimately show ?thesis unfolding rows_exchanged_def by blast
qed

lemma rows_exchanged_changes: "\<not> rows_exchanged m m"
proof
  assume "rows_exchanged m m"
  then obtain i j where ij: "i < length m" "j < length m" "i \<noteq> j" "m ! i \<noteq> m ! j"
    and eq: "m = m[i := m ! j, j := m ! i]"
    by (auto simp: rows_exchanged_def)
  from ij have "m[i := m ! j, j := m ! i] ! i = m ! j" by simp
  with eq ij show False by metis
qed


lemma elim_rows_length: "length (elim_rows m p r n) = length m"
proof (induction "n - r" arbitrary: m r)
  case 0
  then show ?case by (subst elim_rows.simps) simp
next
  case (Suc d)
  then have "r < n" and "d = n - Suc r" by simp_all
  with Suc.hyps(1) [of "Suc r"] show ?case
    by (subst elim_rows.simps) (simp add: Let_def)
qed

lemma eliminate_matrix_length [simp]:
  "length (m_matrix (eliminate s p)) = length (m_matrix s)"
  by (simp add: eliminate_def elim_rows_length)

lemma interchange_matrix [simp]:
  "m_matrix (interchange s p k) = (m_matrix s)[p := m_matrix s ! k, k := m_matrix s ! p]"
  by (simp add: interchange_def rswap_def Let_def)

lemma interchange_swaps [simp]: "m_swaps (interchange s p k) = increment_int (m_swaps s)"
  by (simp add: interchange_def rswap_def Let_def)

lemma swap_part_selected:
  "index_best s p = Inr sel \<Longrightarrow>
   swap_part s p = Inr (if sel \<noteq> p then interchange s p sel else s)"
  by (simp add: swap_part_def)

lemma swap_part_Inr:
  "swap_part s p = Inr s1 \<Longrightarrow>
   \<exists>sel. index_best s p = Inr sel \<and> s1 = (if sel \<noteq> p then interchange s p sel else s)"
  by (cases "index_best s p") (auto simp: swap_part_def)

lemma pivot_step_swap_part:
  "pivot_step s p = (case swap_part s p of Inl e \<Rightarrow> Inl e | Inr s1 \<Rightarrow> Inr (eliminate s1 p))"
  by (cases "index_best s p") (simp_all add: pivot_step_def swap_part_def)

lemma swap_part_exchanged:
  assumes "length (m_matrix s) = m_dim s" "p < m_dim s"
    and "index_best s p = Inr sel" "swap_part s p = Inr s1"
  shows "rows_exchanged (m_matrix s) (m_matrix s1) \<longleftrightarrow> sel \<noteq> p"
proof (cases "sel = p")
  case True
  with assms(3,4) have "s1 = s" by (simp add: swap_part_def)
  with True show ?thesis by (simp add: rows_exchanged_changes)
next
  case False
  from assms(3) assms(2) have sel: "sel < m_dim s" by (rule index_best_range)
  from selected_row_differs [OF assms(3) False]
  have differ: "m_matrix s ! p \<noteq> m_matrix s ! sel" by simp
  from assms(3,4) False have "s1 = interchange s p sel"
    by (simp add: swap_part_def)
  then have "m_matrix s1 = (m_matrix s)[p := m_matrix s ! sel, sel := m_matrix s ! p]"
    by simp
  with rows_exchanged_swap [of p "m_matrix s" sel] assms(1,2) sel False differ
  show ?thesis by simp
qed

lemma swap_part_swaps:
  assumes "length (m_matrix s) = m_dim s" "p < m_dim s" "m_swaps s < 2147483647"
    and "swap_part s p = Inr s1"
  shows "m_swaps s1 = m_swaps s + (if rows_exchanged (m_matrix s) (m_matrix s1) then 1 else 0)"
proof -
  from swap_part_Inr [OF assms(4)] obtain sel
    where sel: "index_best s p = Inr sel"
      and s1: "s1 = (if sel \<noteq> p then interchange s p sel else s)"
    by blast
  from swap_part_exchanged [OF assms(1,2) sel assms(4)] s1 assms(3)
  show ?thesis by (simp add: increment_int_def)
qed

lemma swap_part_dim: "swap_part s p = Inr s1 \<Longrightarrow> m_dim s1 = m_dim s"
  by (auto dest: swap_part_Inr)

lemma swap_part_matrix_length:
  "swap_part s p = Inr s1 \<Longrightarrow> length (m_matrix s1) = length (m_matrix s)"
  by (auto dest!: swap_part_Inr)

lemma pivot_loop_swaps:
  assumes "length (m_matrix s) = m_dim s"
    and "m_swaps s + int (m_dim s - pivot) \<le> 2147483647"
  shows "m_swaps (fst (pivot_loop s pivot)) = m_swaps s + int (actual_interchanges s pivot)"
  using assms
proof (induction "m_dim s - pivot" arbitrary: s pivot)
  case 0
  then show ?case
    by (subst pivot_loop.simps, subst actual_interchanges.simps) simp
next
  case (Suc d)
  then have pivot: "pivot < m_dim s" by simp
  with Suc.prems(2) have below: "m_swaps s < 2147483647" by simp
  show ?case
  proof (cases "swap_part s pivot")
    case (Inl e)
    with pivot show ?thesis
      by (subst pivot_loop.simps, subst actual_interchanges.simps)
         (simp add: pivot_step_swap_part)
  next
    case (Inr s1)
    let ?s' = "eliminate s1 pivot"
    let ?e = "if rows_exchanged (m_matrix s) (m_matrix s1) then 1 else 0 :: nat"
    from swap_part_swaps [OF Suc.prems(1) pivot below Inr]
    have swaps: "m_swaps ?s' = m_swaps s + int ?e" by simp
    from Inr have dim: "m_dim ?s' = m_dim s" by (simp add: swap_part_dim)
    from Inr Suc.prems(1) have len: "length (m_matrix ?s') = m_dim ?s'"
      by (simp add: swap_part_matrix_length swap_part_dim)
    from Suc.hyps(2) dim have d: "d = m_dim ?s' - Suc pivot" by simp
    from swaps dim pivot Suc.prems(2)
    have bound: "m_swaps ?s' + int (m_dim ?s' - Suc pivot) \<le> 2147483647" by auto
    from Suc.hyps(1) [OF d len bound] swaps
    have "m_swaps (fst (pivot_loop ?s' (Suc pivot))) =
          m_swaps s + int (?e + actual_interchanges ?s' (Suc pivot))"
      by simp
    with pivot Inr show ?thesis
      by (subst pivot_loop.simps, subst actual_interchanges.simps)
         (simp add: pivot_step_swap_part)
  qed
qed

lemma LUMatrix_new_fields:
  assumes "1 \<le> n"
  shows "m_dim (fst (LUMatrix_new n mm mo mt)) = nat n"
    and "m_swaps (fst (LUMatrix_new n mm mo mt)) = 0"
    and "length (m_order (fst (LUMatrix_new n mm mo mt))) = nat n"
    and "length (m_matrix (fst (LUMatrix_new n mm mo mt))) = nat n"
    and "snd (LUMatrix_new n mm mo mt) = None"
  using assms by (simp_all add: LUMatrix_new_def)

lemma decompose_init_fields [simp]:
  "m_dim (decompose_init t s) = m_dim s"
  "m_swaps (decompose_init t s) = m_swaps s"
  "m_matrix (decompose_init t s) = m_matrix s"
  by (simp_all add: decompose_init_def)

section \<open>Pivot selection on real matrices\<close>

lemma Max_insert_insert:
  fixes r x :: real
  assumes "finite S"
  shows "Max (insert r (insert x S)) = Max (insert (max r x) S)"
proof (cases "S = {}")
  case True
  then show ?thesis by simp
next
  case False
  with assms show ?thesis by (simp add: max.assoc)
qed

lemma row_max_loop_finite:
  "n \<le> length xs \<Longrightarrow>
   row_max_loop (map Fin xs) j n (Fin r) = Fin (Max (insert r ((\<lambda>k. \<bar>xs ! k\<bar>) ` {j..<n})))"
proof (induction "n - j" arbitrary: j r)
  case 0
  then show ?case by (subst row_max_loop.simps) simp
next
  case (Suc d)
  then have j: "j < n" and d: "d = n - Suc j" by simp_all
  have set: "{j..<n} = insert j {Suc j..<n}" using j by auto
  from j Suc.prems have nth: "map Fin xs ! j = Fin (xs ! j)" by simp
  have "row_max_loop (map Fin xs) j n (Fin r) =
        row_max_loop (map Fin xs) (Suc j) n (Fin (max r \<bar>xs ! j\<bar>))"
    using j nth by (subst row_max_loop.simps) (simp add: vgreater_def max_def)
  also have "\<dots> = Fin (Max (insert (max r \<bar>xs ! j\<bar>) ((\<lambda>k. \<bar>xs ! k\<bar>) ` {Suc j..<n})))"
    using Suc.hyps(1) [OF d Suc.prems] .
  also have "\<dots> = Fin (Max (insert r ((\<lambda>k. \<bar>xs ! k\<bar>) ` {j..<n})))"
  proof -
    have img: "(\<lambda>k. \<bar>xs ! k\<bar>) ` {j..<n} =
               insert \<bar>xs ! j\<bar> ((\<lambda>k. \<bar>xs ! k\<bar>) ` {Suc j..<n})"
      by (subst set) (rule image_insert)
    show ?thesis
      unfolding img by (rule arg_cong [where f = Fin], rule Max_insert_insert [symmetric]) simp
  qed
  finally show ?case .
qed

lemma row_max_finite:
  assumes "m_matrix s = map (map Fin) A" "square A (m_dim s)" "i < m_dim s" "p < m_dim s"
  shows "row_max s i p = Fin (abs_row_max A (m_dim s) i p)"
proof -
  from assms have len: "length (A ! i) = m_dim s" and i: "i < length A"
    by (simp_all add: square_def list_all_length)
  have "insert \<bar>A ! i ! p\<bar> ((\<lambda>k. \<bar>A ! i ! k\<bar>) ` {p..<m_dim s}) = (\<lambda>k. \<bar>A ! i ! k\<bar>) ` {p..<m_dim s}"
    using assms(4) by auto
  with assms len i show ?thesis
    by (simp add: row_max_def abs_row_max_def row_max_loop_finite)
qed

lemma abs_row_max_ge:
  "p \<le> j \<Longrightarrow> j < n \<Longrightarrow> \<bar>A ! i ! j\<bar> \<le> abs_row_max A n i p"
  by (simp add: abs_row_max_def)

lemma abs_row_max_nonneg: "p < n \<Longrightarrow> 0 \<le> abs_row_max A n i p"
  using abs_row_max_ge [of p p n A i] by simp

lemma ratio_nonneg: "p < n \<Longrightarrow> 0 \<le> ratio A n i p"
  by (simp add: ratio_def abs_row_max_nonneg)

lemma represents_nth:
  "represents s A \<Longrightarrow> i < m_dim s \<Longrightarrow> j < m_dim s \<Longrightarrow> m_matrix s ! i ! j = Fin (A ! i ! j)"
  by (simp add: represents_def square_def list_all_length)

lemma represents_row_max:
  "represents s A \<Longrightarrow> i < m_dim s \<Longrightarrow> p < m_dim s \<Longrightarrow>
   row_max s i p = Fin (abs_row_max A (m_dim s) i p)"
  by (simp add: represents_def row_max_finite)

lemma ball_from:
  "i < n \<Longrightarrow> (\<forall>r\<in>{i..<n}. P r) \<longleftrightarrow> P i \<and> (\<forall>r\<in>{Suc i..<n}. P r)"
proof -
  assume "i < n"
  then have "{i..<n} = insert i {Suc i..<n}" by auto
  then show ?thesis by simp
qed

lemma earliest_max_unique:
  assumes "earliest_max A n p k" "earliest_max A' n p k'"
    and "\<forall>i\<in>{p..<n}. ratio A' n i p = ratio A n i p"
  shows "k = k'"
proof (rule ccontr)
  assume "k \<noteq> k'"
  from assms(1) have k: "p \<le> k" "k < n"
    and kmax: "\<And>i. p \<le> i \<Longrightarrow> i < n \<Longrightarrow> ratio A n i p \<le> ratio A n k p"
    and kfirst: "\<And>i. p \<le> i \<Longrightarrow> i < k \<Longrightarrow> ratio A n i p < ratio A n k p"
    by (simp_all add: earliest_max_def)
  from assms(2) have k': "p \<le> k'" "k' < n"
    and kmax': "\<And>i. p \<le> i \<Longrightarrow> i < n \<Longrightarrow> ratio A' n i p \<le> ratio A' n k' p"
    and kfirst': "\<And>i. p \<le> i \<Longrightarrow> i < k' \<Longrightarrow> ratio A' n i p < ratio A' n k' p"
    by (simp_all add: earliest_max_def)
  from assms(3) k k' have same: "ratio A' n k p = ratio A n k p" "ratio A' n k' p = ratio A n k' p"
    by simp_all
  from \<open>k \<noteq> k'\<close> consider "k < k'" | "k' < k" by linarith
  then show False
  proof cases
    case 1
    from kfirst' [OF k(1) 1] kmax [OF k'] same show False by simp
  next
    case 2
    from kfirst [OF k'(1) 2] kmax' [OF k] same show False by simp
  qed
qed

lemma vdiv_fl_exact: "vdiv_fl (\<lambda>x. x) a b = vdiv a b"
  by (cases a; cases b) simp_all

lemma index_best_loop_fl_exact:
  "index_best_loop_fl (\<lambda>x. x) s p i index best = index_best_loop s p i index best"
proof (induction "m_dim s - i" arbitrary: i index best)
  case 0
  then show ?case
    by (subst index_best_loop_fl.simps, subst index_best_loop.simps) simp
next
  case (Suc d)
  then have "i < m_dim s" and d: "d = m_dim s - Suc i" by simp_all
  with Suc.hyps(1) [OF d] show ?case
    by (subst index_best_loop_fl.simps, subst index_best_loop.simps)
       (simp add: vdiv_fl_exact Let_def)
qed

lemma index_best_fl_exact: "index_best_fl (\<lambda>x. x) s p = index_best s p"
  by (simp add: index_best_fl_def index_best_def index_best_loop_fl_exact)

lemma rounding_exact: "rounding (\<lambda>x. x)"
  by (simp add: rounding_def)

lemma rounding_abs: "rounding rd \<Longrightarrow> \<bar>rd x\<bar> = rd \<bar>x\<bar>"
proof -
  assume r: "rounding rd"
  show ?thesis
  proof (cases "0 \<le> x")
    case True
    with r have "0 \<le> rd x" by (simp add: rounding_def)
    with True show ?thesis by simp
  next
    case False
    then have neg: "0 \<le> - x" by simp
    with r have "0 \<le> rd (- x)" unfolding rounding_def by blast
    moreover from r have "rd (- x) = - rd x" by (simp add: rounding_def)
    ultimately show ?thesis using False by simp
  qed
qed

lemma rounding_zero: "rounding rd \<Longrightarrow> rd 0 = 0"
  using rounding_abs [of rd 0] by (auto simp: rounding_def dest: spec [of _ 0])

text \<open>The test and the assignment of the loop body, on finite entries.\<close>

lemma ratio_test_fl:
  assumes "rounding rd" "p < n" "0 \<le> b"
  shows "vgreater (vdiv_fl rd (vabs (Fin (A ! i ! p))) (Fin (abs_row_max A n i p))) (Fin b)
         \<longleftrightarrow> b < rd (ratio A n i p)"
proof (cases "abs_row_max A n i p = 0")
  case True
  with abs_row_max_ge [of p p n A i] assms have "A ! i ! p = 0" by simp
  with True assms show ?thesis by (simp add: vgreater_def ratio_def rounding_zero)
next
  case False
  then show ?thesis by (simp add: vgreater_def ratio_def)
qed

lemma ratio_assign_fl:
  assumes "rounding rd" "p < n" "abs_row_max A n i p \<noteq> 0"
  shows "vabs (vdiv_fl rd (Fin (A ! i ! p)) (Fin (abs_row_max A n i p))) = Fin (rd (ratio A n i p))"
  using assms abs_row_max_nonneg [of p n A i] by (simp add: ratio_def rounding_abs)

lemma index_best_loop_fl_unfold:
  assumes "rounding rd" "represents s A" "i < m_dim s" "p < m_dim s" "0 \<le> b"
  shows "index_best_loop_fl rd s p i index (Fin b) =
         (if vless (Fin (abs_row_max A (m_dim s) i p)) (m_tolerance s)
          then Inl LinearlyDependentRow
          else if b < rd (ratio A (m_dim s) i p)
          then index_best_loop_fl rd s p (Suc i) i (Fin (rd (ratio A (m_dim s) i p)))
          else index_best_loop_fl rd s p (Suc i) index (Fin b))"
proof -
  have pos: "abs_row_max A (m_dim s) i p \<noteq> 0" if "b < rd (ratio A (m_dim s) i p)"
    using that assms(1,5) by (auto simp: ratio_def rounding_zero)
  show ?thesis
    using assms pos
    by (subst index_best_loop_fl.simps)
       (simp add: represents_row_max represents_nth ratio_test_fl ratio_assign_fl
             del: vabs.simps vdiv_fl.simps)
qed

lemma index_best_loop_fl_fails:
  assumes "rounding rd" "represents s A" "p < m_dim s" "0 \<le> b"
    and "\<exists>r\<in>{i..<m_dim s}. vless (Fin (abs_row_max A (m_dim s) r p)) (m_tolerance s)"
  shows "index_best_loop_fl rd s p i index (Fin b) = Inl LinearlyDependentRow"
  using assms(4,5)
proof (induction "m_dim s - i" arbitrary: i index b)
  case 0
  then show ?case by simp
next
  case (Suc d)
  then have i: "i < m_dim s" and d: "d = m_dim s - Suc i" by simp_all
  note unfold = index_best_loop_fl_unfold [OF assms(1,2) i assms(3) Suc.prems(1), of index]
  show ?case
  proof (cases "vless (Fin (abs_row_max A (m_dim s) i p)) (m_tolerance s)")
    case True
    then show ?thesis by (simp add: unfold)
  next
    case False
    with Suc.prems(2)
    have later: "\<exists>r\<in>{Suc i..<m_dim s}. vless (Fin (abs_row_max A (m_dim s) r p)) (m_tolerance s)"
      by (metis atLeastLessThan_iff Suc_leI le_neq_implies_less)
    have "0 \<le> rd (ratio A (m_dim s) i p)"
      using assms(1,3) by (simp add: rounding_def ratio_nonneg)
    with False Suc.hyps(1) [OF d _ later] Suc.prems(1) show ?thesis
      by (simp add: unfold)
  qed
qed

lemma index_best_loop_fl_selects:
  assumes "rounding rd" "represents s A" "p < m_dim s" "0 \<le> b"
    and "\<forall>r\<in>{i..<m_dim s}. \<not> vless (Fin (abs_row_max A (m_dim s) r p)) (m_tolerance s)"
  shows "\<exists>k. index_best_loop_fl rd s p i index (Fin b) = Inr k \<and>
           (k = index \<and> (\<forall>r\<in>{i..<m_dim s}. rd (ratio A (m_dim s) r p) \<le> b) \<or>
            i \<le> k \<and> k < m_dim s \<and> b < rd (ratio A (m_dim s) k p) \<and>
            (\<forall>r\<in>{i..<m_dim s}. rd (ratio A (m_dim s) r p) \<le> rd (ratio A (m_dim s) k p)) \<and>
            (\<forall>r\<in>{i..<k}. rd (ratio A (m_dim s) r p) < rd (ratio A (m_dim s) k p)))"
  using assms(4,5)
proof (induction "m_dim s - i" arbitrary: i index b)
  case 0
  then show ?case by (subst index_best_loop_fl.simps) simp
next
  case (Suc d)
  then have i: "i < m_dim s" and d: "d = m_dim s - Suc i" by simp_all
  let ?n = "m_dim s"
  note unfold = index_best_loop_fl_unfold [OF assms(1,2) i assms(3) Suc.prems(1), of index]
  from Suc.prems(2) i
  have ok: "\<not> vless (Fin (abs_row_max A ?n i p)) (m_tolerance s)"
    and later: "\<forall>r\<in>{Suc i..<?n}. \<not> vless (Fin (abs_row_max A ?n r p)) (m_tolerance s)"
    by simp_all
  show ?case
  proof (cases "b < rd (ratio A ?n i p)")
    case True
    then have nonneg: "0 \<le> rd (ratio A ?n i p)" using Suc.prems(1) by simp
    from Suc.hyps(1) [OF d nonneg later, of i]
    obtain k where k: "index_best_loop_fl rd s p (Suc i) i (Fin (rd (ratio A ?n i p))) = Inr k"
      and alt: "k = i \<and> (\<forall>r\<in>{Suc i..<?n}. rd (ratio A ?n r p) \<le> rd (ratio A ?n i p)) \<or>
            Suc i \<le> k \<and> k < ?n \<and> rd (ratio A ?n i p) < rd (ratio A ?n k p) \<and>
            (\<forall>r\<in>{Suc i..<?n}. rd (ratio A ?n r p) \<le> rd (ratio A ?n k p)) \<and>
            (\<forall>r\<in>{Suc i..<k}. rd (ratio A ?n r p) < rd (ratio A ?n k p))"
      by blast
    have res: "index_best_loop_fl rd s p i index (Fin b) = Inr k"
      using True ok k by (simp add: unfold)
    from alt have "i \<le> k \<and> k < ?n \<and> b < rd (ratio A ?n k p) \<and>
            (\<forall>r\<in>{i..<?n}. rd (ratio A ?n r p) \<le> rd (ratio A ?n k p)) \<and>
            (\<forall>r\<in>{i..<k}. rd (ratio A ?n r p) < rd (ratio A ?n k p))"
    proof
      assume a: "k = i \<and> (\<forall>r\<in>{Suc i..<?n}. rd (ratio A ?n r p) \<le> rd (ratio A ?n i p))"
      with i True show ?thesis
        by (simp add: ball_from [OF i])
    next
      assume a: "Suc i \<le> k \<and> k < ?n \<and> rd (ratio A ?n i p) < rd (ratio A ?n k p) \<and>
            (\<forall>r\<in>{Suc i..<?n}. rd (ratio A ?n r p) \<le> rd (ratio A ?n k p)) \<and>
            (\<forall>r\<in>{Suc i..<k}. rd (ratio A ?n r p) < rd (ratio A ?n k p))"
      then have "i < k" by simp
      with a True show ?thesis
        by (simp add: ball_from [OF i] ball_from [OF \<open>i < k\<close>])
    qed
    with res show ?thesis by blast
  next
    case False
    from Suc.hyps(1) [OF d Suc.prems(1) later, of index]
    obtain k where k: "index_best_loop_fl rd s p (Suc i) index (Fin b) = Inr k"
      and alt: "k = index \<and> (\<forall>r\<in>{Suc i..<?n}. rd (ratio A ?n r p) \<le> b) \<or>
            Suc i \<le> k \<and> k < ?n \<and> b < rd (ratio A ?n k p) \<and>
            (\<forall>r\<in>{Suc i..<?n}. rd (ratio A ?n r p) \<le> rd (ratio A ?n k p)) \<and>
            (\<forall>r\<in>{Suc i..<k}. rd (ratio A ?n r p) < rd (ratio A ?n k p))"
      by blast
    have res: "index_best_loop_fl rd s p i index (Fin b) = Inr k"
      using False ok k by (simp add: unfold)
    from alt have "k = index \<and> (\<forall>r\<in>{i..<?n}. rd (ratio A ?n r p) \<le> b) \<or>
            i \<le> k \<and> k < ?n \<and> b < rd (ratio A ?n k p) \<and>
            (\<forall>r\<in>{i..<?n}. rd (ratio A ?n r p) \<le> rd (ratio A ?n k p)) \<and>
            (\<forall>r\<in>{i..<k}. rd (ratio A ?n r p) < rd (ratio A ?n k p))"
    proof
      assume a: "k = index \<and> (\<forall>r\<in>{Suc i..<?n}. rd (ratio A ?n r p) \<le> b)"
      with False show ?thesis
        by (simp add: ball_from [OF i])
    next
      assume a: "Suc i \<le> k \<and> k < ?n \<and> b < rd (ratio A ?n k p) \<and>
            (\<forall>r\<in>{Suc i..<?n}. rd (ratio A ?n r p) \<le> rd (ratio A ?n k p)) \<and>
            (\<forall>r\<in>{Suc i..<k}. rd (ratio A ?n r p) < rd (ratio A ?n k p))"
      with False have "i \<le> k \<and> k < ?n \<and> b < rd (ratio A ?n k p) \<and>
            (\<forall>r\<in>{i..<?n}. rd (ratio A ?n r p) \<le> rd (ratio A ?n k p)) \<and>
            (\<forall>r\<in>{i..<k}. rd (ratio A ?n r p) < rd (ratio A ?n k p))"
        by (simp add: ball_from [OF i] ball_from [of i k])
      then show ?thesis by blast
    qed
    with res show ?thesis by blast
  qed
qed

lemma index_best_fl_failure:
  assumes "rounding rd" "represents s A" "p < m_dim s"
    and "\<exists>r\<in>{p..<m_dim s}. vless (Fin (abs_row_max A (m_dim s) r p)) (m_tolerance s)"
  shows "index_best_fl rd s p = Inl LinearlyDependentRow"
  unfolding index_best_fl_def using assms by (intro index_best_loop_fl_fails) simp_all

lemma index_best_fl_success:
  assumes "rounding rd" "represents s A" "p < m_dim s"
    and "\<forall>r\<in>{p..<m_dim s}. \<not> vless (Fin (abs_row_max A (m_dim s) r p)) (m_tolerance s)"
  shows "\<exists>k. index_best_fl rd s p = Inr k \<and> p \<le> k \<and> k < m_dim s \<and>
           (\<forall>r\<in>{p..<m_dim s}. rd (ratio A (m_dim s) r p) \<le> rd (ratio A (m_dim s) k p)) \<and>
           (\<forall>r\<in>{p..<k}. rd (ratio A (m_dim s) r p) < rd (ratio A (m_dim s) k p))"
proof -
  let ?n = "m_dim s"
  from index_best_loop_fl_selects [OF assms(1,2,3) _ assms(4), of 0 p]
  obtain k where k: "index_best_fl rd s p = Inr k"
    and alt: "k = p \<and> (\<forall>r\<in>{p..<?n}. rd (ratio A ?n r p) \<le> 0) \<or>
            p \<le> k \<and> k < ?n \<and> 0 < rd (ratio A ?n k p) \<and>
            (\<forall>r\<in>{p..<?n}. rd (ratio A ?n r p) \<le> rd (ratio A ?n k p)) \<and>
            (\<forall>r\<in>{p..<k}. rd (ratio A ?n r p) < rd (ratio A ?n k p))"
    unfolding index_best_fl_def by auto
  from alt have "p \<le> k \<and> k < ?n \<and>
           (\<forall>r\<in>{p..<?n}. rd (ratio A ?n r p) \<le> rd (ratio A ?n k p)) \<and>
           (\<forall>r\<in>{p..<k}. rd (ratio A ?n r p) < rd (ratio A ?n k p))"
  proof
    assume a: "k = p \<and> (\<forall>r\<in>{p..<?n}. rd (ratio A ?n r p) \<le> 0)"
    have "0 \<le> rd (ratio A ?n p p)"
      using assms(1,3) by (simp add: rounding_def ratio_nonneg)
    with a assms(3) show ?thesis
      by (auto intro: order_trans)
  next
    assume "p \<le> k \<and> k < ?n \<and> 0 < rd (ratio A ?n k p) \<and>
            (\<forall>r\<in>{p..<?n}. rd (ratio A ?n r p) \<le> rd (ratio A ?n k p)) \<and>
            (\<forall>r\<in>{p..<k}. rd (ratio A ?n r p) < rd (ratio A ?n k p))"
    then show ?thesis by simp
  qed
  with k show ?thesis by blast
qed

lemma index_best_failure:
  assumes "represents s A" "p < m_dim s"
    and "\<exists>r\<in>{p..<m_dim s}. vless (Fin (abs_row_max A (m_dim s) r p)) (m_tolerance s)"
  shows "index_best s p = Inl LinearlyDependentRow"
  using index_best_fl_failure [OF rounding_exact assms] by (simp add: index_best_fl_exact)

lemma index_best_success:
  assumes "represents s A" "p < m_dim s"
    and "\<forall>r\<in>{p..<m_dim s}. \<not> vless (Fin (abs_row_max A (m_dim s) r p)) (m_tolerance s)"
  shows "\<exists>k. index_best s p = Inr k \<and> earliest_max A (m_dim s) p k"
  using index_best_fl_success [OF rounding_exact assms]
  by (simp add: index_best_fl_exact earliest_max_def)

lemma index_best_returns:
  assumes "represents s A" "p < m_dim s" "index_best s p = Inr k"
  shows "earliest_max A (m_dim s) p k \<and>
         (\<forall>r\<in>{p..<m_dim s}. \<not> vless (Fin (abs_row_max A (m_dim s) r p)) (m_tolerance s))"
proof (cases "\<exists>r\<in>{p..<m_dim s}. vless (Fin (abs_row_max A (m_dim s) r p)) (m_tolerance s)")
  case True
  from index_best_failure [OF assms(1,2) True] assms(3) show ?thesis by simp
next
  case False
  then have ok: "\<forall>r\<in>{p..<m_dim s}. \<not> vless (Fin (abs_row_max A (m_dim s) r p)) (m_tolerance s)"
    by blast
  from index_best_success [OF assms(1,2) ok] assms(3) ok show ?thesis by auto
qed

subsection \<open>Scaling a row\<close>

lemma abs_row_max_scale:
  assumes "0 < k" "p < n" "i < length A" "length (A ! i) = n"
  shows "abs_row_max (A[i := map ((*) k) (A ! i)]) n i p = k * abs_row_max A n i p"
proof -
  have mono: "mono ((*) k)" using assms(1) by (simp add: mono_def)
  have fin: "finite ((\<lambda>j. \<bar>A ! i ! j\<bar>) ` {p..<n})" and ne: "(\<lambda>j. \<bar>A ! i ! j\<bar>) ` {p..<n} \<noteq> {}"
    using assms(2) by simp_all
  have "(\<lambda>j. \<bar>A[i := map ((*) k) (A ! i)] ! i ! j\<bar>) ` {p..<n} =
        (*) k ` ((\<lambda>j. \<bar>A ! i ! j\<bar>) ` {p..<n})"
    using assms by (auto simp: image_image abs_mult intro!: image_cong)
  then show ?thesis
    unfolding abs_row_max_def using mono_Max_commute [OF mono fin ne] by simp
qed

lemma ratio_scale:
  assumes "0 < k" "p < n" "i < length A" "length (A ! i) = n"
  shows "ratio (A[i := map ((*) k) (A ! i)]) n r p = ratio A n r p"
proof (cases "r = i")
  case True
  with assms show ?thesis
    by (simp add: ratio_def abs_row_max_scale abs_mult)
next
  case False
  then show ?thesis by (simp add: ratio_def abs_row_max_def)
qed

lemma represents_scale_row:
  assumes "represents s A" "i < m_dim s"
  shows "represents (scale_row s i k) (A[i := map ((*) k) (A ! i)])"
proof -
  from assms have i: "i < length A" and len: "length (A ! i) = m_dim s"
    by (simp_all add: represents_def square_def list_all_length)
  have "map (vmul (Fin k)) (map Fin (A ! i)) = map Fin (map ((*) k) (A ! i))"
    by simp
  with assms i len show ?thesis
    by (auto simp: represents_def scale_row_def square_def map_update list_all_length
          nth_list_update comp_def)
qed

lemma scale_row_fields [simp]:
  "m_dim (scale_row s i k) = m_dim s" "m_tolerance (scale_row s i k) = m_tolerance s"
  by (simp_all add: scale_row_def)

section \<open>The identity matrix\<close>

lemma identity_matrix_nth:
  "i < n \<Longrightarrow> j < n \<Longrightarrow> identity_matrix n ! i ! j = (if i = j then 1 else 0)"
  by (simp add: identity_matrix_def)

lemma identity_matrix_square: "square (identity_matrix n) n"
  by (simp add: square_def identity_matrix_def list_all_length)

lemma abs_row_max_identity:
  assumes "p \<le> r" "r < n"
  shows "abs_row_max (identity_matrix n) n r p = 1"
proof -
  let ?S = "(\<lambda>j. \<bar>identity_matrix n ! r ! j\<bar>) ` {p..<n}"
  have "(1::real) \<in> ?S"
  proof
    show "(1::real) = \<bar>identity_matrix n ! r ! r\<bar>"
      using assms by (simp add: identity_matrix_nth)
    show "r \<in> {p..<n}" using assms by simp
  qed
  moreover have "\<forall>x\<in>?S. x \<le> 1"
    using assms by (auto simp: identity_matrix_nth)
  ultimately show ?thesis
    unfolding abs_row_max_def by (intro Max_eqI) auto
qed

lemma ratio_identity:
  assumes "p \<le> r" "r < n"
  shows "ratio (identity_matrix n) n r p = (if r = p then 1 else 0)"
  using assms by (simp add: ratio_def abs_row_max_identity identity_matrix_nth)

lemma index_best_identity:
  assumes "represents s (identity_matrix (m_dim s))" "p < m_dim s"
    and "\<not> vless (Fin 1) (m_tolerance s)"
  shows "index_best s p = Inr p"
proof -
  let ?n = "m_dim s"
  have ok: "\<forall>r\<in>{p..<?n}. \<not> vless (Fin (abs_row_max (identity_matrix ?n) ?n r p)) (m_tolerance s)"
    using assms(3) by (simp add: abs_row_max_identity)
  from index_best_success [OF assms(1,2) ok]
  obtain k where k: "index_best s p = Inr k" and best: "earliest_max (identity_matrix ?n) ?n p k"
    by blast
  have "k = p"
  proof (rule ccontr)
    assume "k \<noteq> p"
    with best have "p < k" "k < ?n" by (simp_all add: earliest_max_def)
    with best have "ratio (identity_matrix ?n) ?n p p < ratio (identity_matrix ?n) ?n k p"
      by (simp add: earliest_max_def)
    with \<open>p < k\<close> \<open>k < ?n\<close> show False by (simp add: ratio_identity)
  qed
  with k show ?thesis by simp
qed

lemma elim_cols_fixed:
  "(\<And>j. col \<le> j \<Longrightarrow> j < n \<Longrightarrow> vsub (row ! j) (vmul c (prow ! j)) = row ! j) \<Longrightarrow>
   elim_cols c prow row col n = row"
proof (induction "n - col" arbitrary: col)
  case 0
  then show ?case by (subst elim_cols.simps) simp
next
  case (Suc d)
  then have col: "col < n" and d: "d = n - Suc col" by simp_all
  from Suc.prems [of col] col have "row[col := vsub (row ! col) (vmul c (prow ! col))] = row"
    by simp
  moreover have "elim_cols c prow row (Suc col) n = row"
    using Suc.hyps(1) [OF d] Suc.prems by simp
  ultimately show ?case using col by (subst elim_cols.simps) simp
qed

lemma elim_rows_fixed:
  "(\<And>r. r0 \<le> r \<Longrightarrow> r < n \<Longrightarrow>
      (elim_cols (vdiv (m ! r ! p) (m ! p ! p)) (m ! p) (m ! r) (Suc p) n)
        [p := vdiv (m ! r ! p) (m ! p ! p)] = m ! r) \<Longrightarrow>
   elim_rows m p r0 n = m"
proof (induction "n - r0" arbitrary: r0)
  case 0
  then show ?case by (subst elim_rows.simps) simp
next
  case (Suc d)
  then have r0: "r0 < n" and d: "d = n - Suc r0" by simp_all
  have "elim_rows m p (Suc r0) n = m"
    using Suc.hyps(1) [OF d] Suc.prems by simp
  with Suc.prems [of r0] r0 show ?case
    by (subst elim_rows.simps) (simp add: Let_def)
qed

lemma eliminate_identity:
  assumes "represents s (identity_matrix (m_dim s))" "p < m_dim s"
  shows "eliminate s p = s"
proof -
  let ?n = "m_dim s"
  let ?m = "m_matrix s"
  have nth: "?m ! i ! j = Fin (if i = j then 1 else 0)" if "i < ?n" "j < ?n" for i j
    using represents_nth [OF assms(1) that] that by (simp add: identity_matrix_nth)
  have len: "length (?m ! i) = ?n" if "i < ?n" for i
    using assms(1) that by (simp add: represents_def square_def list_all_length)
  have row: "(elim_cols (vdiv (?m ! r ! p) (?m ! p ! p)) (?m ! p) (?m ! r) (Suc p) ?n)
        [p := vdiv (?m ! r ! p) (?m ! p ! p)] = ?m ! r" if "Suc p \<le> r" "r < ?n" for r
  proof -
    from that assms(2) have c: "vdiv (?m ! r ! p) (?m ! p ! p) = Fin 0"
      by (simp add: nth)
    have "elim_cols (Fin 0) (?m ! p) (?m ! r) (Suc p) ?n = ?m ! r"
      using that assms(2) by (intro elim_cols_fixed) (simp add: nth)
    moreover have "(?m ! r)[p := Fin 0] = ?m ! r"
    proof -
      from that assms(2) have "?m ! r ! p = Fin 0" by (simp add: nth)
      then show ?thesis by (metis list_update_id)
    qed
    ultimately show ?thesis by (simp add: c)
  qed
  have "elim_rows ?m p (Suc p) ?n = ?m"
    by (rule elim_rows_fixed) (rule row)
  then show ?thesis by (simp add: eliminate_def)
qed

lemma pivot_loop_identity:
  assumes "represents s (identity_matrix (m_dim s))" "\<not> vless (Fin 1) (m_tolerance s)"
  shows "pivot_loop s pivot = (s, None)"
proof (induction "m_dim s - pivot" arbitrary: pivot)
  case 0
  then show ?case by (subst pivot_loop.simps) simp
next
  case (Suc d)
  then have pivot: "pivot < m_dim s" and d: "d = m_dim s - Suc pivot" by simp_all
  have "pivot_step s pivot = Inr s"
    using index_best_identity [OF assms(1) pivot assms(2)] eliminate_identity [OF assms(1) pivot]
    by (simp add: pivot_step_def)
  with pivot Suc.hyps(1) [OF d] show ?case
    by (subst pivot_loop.simps) simp
qed


lemma vless_asym: "vless a b \<Longrightarrow> \<not> vless b a"
  by (cases a; cases b) auto

lemma represents_identity:
  assumes "m_matrix s = map (\<lambda>i. map (\<lambda>j. if i = j then Fin 1 else Fin 0) [0..<m_dim s]) [0..<m_dim s]"
  shows "represents s (identity_matrix (m_dim s))"
proof -
  have "map (map Fin) (identity_matrix (m_dim s)) = m_matrix s"
    unfolding assms identity_matrix_def by (simp add: comp_def if_distrib)
  then show ?thesis
    by (simp add: represents_def identity_matrix_square)
qed

section \<open>The claims\<close>

text \<open>
  C7. For every tolerance argument \<open>t\<close> given to \<^verbatim>\<open>decompose\<close>, the tolerance the object
  holds for the singularity check is the default \<open>1/1024\<close> when \<open>t < 0\<close>, and \<open>t\<close> itself
  otherwise (\<open>t = 0\<close> included). The pivot loop never changes it.
\<close>

theorem decompose_tolerance:
  "m_tolerance (fst (decompose t s)) = (if vless t (Fin 0) then Fin (1 / 1024) else t)"
  by (simp add: decompose_def pivot_loop_tolerance decompose_init_def)

theorem decompose_tolerance_witness:
  "m_tolerance (fst (decompose (Fin (- 1)) (object_of [[1]]))) = Fin (1 / 1024)"
  using decompose_tolerance [of "Fin (- 1)" "object_of [[1]]"] by simp

text \<open>
  C9. The accessor \<^verbatim>\<open>at(i, j)\<close> has no \<^verbatim>\<open>return\<close> on any path: whatever the object and
  the indices, in range or not, no slot is returned.
\<close>

theorem at_slot_no_return: "snd (at_slot s i j) = None"
  by (simp add: at_slot_def)

theorem at_slot_no_return_witness:
  "snd (at_slot (object_of [[2, 1, 1], [4, 3, 3], [8, 7, 9]]) 1 1) = None"
  using at_slot_no_return [of "object_of [[2, 1, 1], [4, 3, 3], [8, 7, 9]]" 1 1] by simp

text \<open>
  C6. The accessor at the in-range indices \<open>(1, 1)\<close> of a 3-by-3 matrix: nothing is
  thrown and no slot is returned. At \<open>(0, 1)\<close> the exception \<open>IndexOutOfBounds 0 1\<close> is
  thrown, caught and printed inside the accessor, and again no slot is returned.
\<close>

theorem at_slot_in_range:
  "at_slot (object_of [[2, 1, 1], [4, 3, 3], [8, 7, 9]]) 1 1 = (None, None) \<and>
   at_slot (object_of [[2, 1, 1], [4, 3, 3], [8, 7, 9]]) 0 1 = (Some (IndexOutOfBounds 0 1), None)"
  by (simp add: at_slot_def object_of_def)

text \<open>
  C2. The scenario \<open>n = 3\<close>, \<open>A = [[2,1,1],[4,3,3],[8,7,9]]\<close>, with the tolerance
  \<open>10\<^sup>-\<^sup>6\<close> that \<^verbatim>\<open>main\<close> passes. The ratios of the first pivot step are \<open>2/2\<close>, \<open>4/4\<close> and
  \<open>8/9\<close>: row 0 is selected, not row 2. No later step interchanges rows either, so the
  decomposition ends with \<^verbatim>\<open>_swaps\<close> = 0.
\<close>

theorem scenario_selects_row_0:
  "index_best (decompose_init (Fin (1 / 1000000)) (object_of [[2, 1, 1], [4, 3, 3], [8, 7, 9]])) 0
     = Inr 0 \<and>
   decompose (Fin (1 / 1000000)) (object_of [[2, 1, 1], [4, 3, 3], [8, 7, 9]]) =
     (\<lparr>m_dim = 3, m_swaps = 0, m_order = [0, 1, 2], m_tolerance = Fin (1 / 1000000),
       m_matrix = [[Fin 2, Fin 1, Fin 1], [Fin 2, Fin 1, Fin 1], [Fin 4, Fin 3, Fin 2]]\<rparr>,
      None)"
  by code_simp

theorem scenario_counterexample:
  "\<not> (index_best (decompose_init (Fin (1 / 1000000))
          (object_of [[2, 1, 1], [4, 3, 3], [8, 7, 9]])) 0 = Inr 2 \<and>
       1 \<le> m_swaps (fst (decompose (Fin (1 / 1000000))
          (object_of [[2, 1, 1], [4, 3, 3], [8, 7, 9]]))))"
  by code_simp

text \<open>
  C10. With the tolerance 0 the check \<^verbatim>\<open>row_max < _tolerance\<close> never succeeds, since
  \<^verbatim>\<open>row_max\<close> is an absolute value: \<^verbatim>\<open>decompose\<close> catches no exception, whatever the
  matrix. A matrix with an all-zero row is then eliminated like any other; for
  \<open>[[0,0],[0,1]]\<close> the first step divides 0 by the zero pivot and stores NaN.
\<close>

theorem tolerance_zero_never_fails:
  "snd (decompose (Fin 0) s) = None \<and>
   divides_by_zero_pivot (decompose_init (Fin 0) (object_of [[0, 0], [0, 1]])) 0 \<and>
   m_matrix (fst (decompose (Fin 0) (object_of [[0, 0], [0, 1]]))) ! 1 ! 0 = NaN"
proof -
  have "snd (decompose (Fin 0) s) = None"
    by (simp add: decompose_def decompose_init_def pivot_loop_tolerance_0)
  moreover have "divides_by_zero_pivot (decompose_init (Fin 0) (object_of [[0, 0], [0, 1]])) 0"
    by code_simp
  moreover have "m_matrix (fst (decompose (Fin 0) (object_of [[0, 0], [0, 1]]))) ! 1 ! 0 = NaN"
    by code_simp
  ultimately show ?thesis by simp
qed

theorem tolerance_zero_never_fails_witness:
  "snd (decompose (Fin 0) (object_of [[1, 0], [0, 0]])) = None"
  using tolerance_zero_never_fails [of "object_of [[1, 0], [0, 0]]"] by simp

text \<open>
  The matrix \<open>[[1,0],[0,0]]\<close> has an all-zero row, and with the tolerance 0 its
  decomposition ends without an exception and without a division by a zero pivot: the
  only division is by the pivot 1, and the zero row ends as the last pivot row, below
  which nothing is eliminated.
\<close>

theorem zero_row_counterexample:
  "decompose (Fin 0) (object_of [[1, 0], [0, 0]]) =
     (\<lparr>m_dim = 2, m_swaps = 0, m_order = [0, 1], m_tolerance = Fin 0,
       m_matrix = [[Fin 1, Fin 0], [Fin 0, Fin 0]]\<rparr>, None) \<and>
   \<not> divides_by_zero_pivot (decompose_init (Fin 0) (object_of [[1, 0], [0, 0]])) 0"
  by code_simp




text \<open>
  C8. In exact arithmetic, multiplying every entry of a row by a positive constant
  leaves the selected row unchanged whenever pivot selection returns a row both before
  and after: every ratio stays the same. (The maximum of the scaled row may fall below
  the tolerance, or rise above it, and so change whether selection throws.)
\<close>

theorem scaling_keeps_selected_row:
  assumes "represents s A" "p < m_dim s" "i < m_dim s" "0 < k"
    and "index_best s p = Inr a" "index_best (scale_row s i k) p = Inr b"
  shows "a = b"
proof -
  let ?A' = "A[i := map ((*) k) (A ! i)]"
  from assms(1,3) have i: "i < length A" and len: "length (A ! i) = m_dim s"
    by (simp_all add: represents_def square_def list_all_length)
  have rep: "represents (scale_row s i k) ?A'"
    using assms(1,3) by (rule represents_scale_row)
  from index_best_returns [OF assms(1,2,5)] have a: "earliest_max A (m_dim s) p a" by simp
  from index_best_returns [OF rep _ assms(6)] assms(2)
  have b: "earliest_max ?A' (m_dim s) p b" by simp
  have "\<forall>r\<in>{p..<m_dim s}. ratio ?A' (m_dim s) r p = ratio A (m_dim s) r p"
    using ratio_scale [OF assms(4,2) i len] by simp
  with a b show ?thesis by (rule earliest_max_unique)
qed

theorem scaling_keeps_selected_row_witness:
  "represents (object_of [[1, 2], [3, 4]]) [[1, 2], [3, 4]] \<and>
   0 < m_dim (object_of [[1, 2], [3, 4]]) \<and> 1 < m_dim (object_of [[1, 2], [3, 4]]) \<and>
   0 < (2 :: real) \<and>
   index_best (object_of [[1, 2], [3, 4]]) 0 = Inr 1 \<and>
   index_best (scale_row (object_of [[1, 2], [3, 4]]) 1 2) 0 = Inr 1"
proof -
  let ?A = "[[1, 2], [3, 4 :: real]]"
  have rep: "represents (object_of ?A) ?A"
    by (simp add: represents_def object_of_def square_def)
  have p: "0 < m_dim (object_of ?A)" and i: "1 < m_dim (object_of ?A)"
    by (simp_all add: object_of_def)
  have k: "0 < (2 :: real)"
    by simp
  have a: "index_best (object_of ?A) 0 = Inr 1"
    by code_simp
  obtain b where b: "index_best (scale_row (object_of ?A) 1 2) 0 = Inr b"
    by (cases "index_best (scale_row (object_of ?A) 1 2) 0") (code_simp, blast)
  from scaling_keeps_selected_row [OF rep p i k a b] have "b = 1"
    by simp
  with rep p i a b show ?thesis
    by simp
qed

text \<open>
  The 1-by-1 matrix \<open>[[1]]\<close> under the default tolerance \<open>1/1024\<close>: row 0 is selected.
  With the row multiplied by \<open>1/2048\<close> its maximum is below the tolerance, and
  selection throws instead of returning a row.
\<close>

theorem scaling_counterexample:
  "index_best (decompose_init (Fin (- 1)) (object_of [[1]])) 0 = Inr 0 \<and>
   index_best (scale_row (decompose_init (Fin (- 1)) (object_of [[1]])) 0 (1 / 2048)) 0
     = Inl LinearlyDependentRow"
  by code_simp

text \<open>
  C5. On an object as constructed (\<^verbatim>\<open>_swaps\<close> = 0, any matrix entries): the swap part of a
  pivot step adds 1 to \<^verbatim>\<open>_swaps\<close> when it exchanges two rows of the matrix, and nothing
  when the selected row is the pivot row and the rows stay as they are; so when
  \<^verbatim>\<open>decompose\<close> returns, \<^verbatim>\<open>_swaps\<close> is the number of actual row interchanges of the run. The
  permutation buffer, set to the identity first, is a bijection on \<open>[0, n)\<close> after every
  pivot step and when \<^verbatim>\<open>decompose\<close> returns.
\<close>

theorem swap_count_and_permutation:
  assumes "1 \<le> n" and "n \<le> 2147483647" and "s = fst (LUMatrix_new n mem_matrix mem_order mem_tolerance)"
  shows "(\<forall>s1 p s2. length (m_matrix s1) = m_dim s1 \<longrightarrow> p < m_dim s1 \<longrightarrow>
            m_swaps s1 < 2147483647 \<longrightarrow> swap_part s1 p = Inr s2 \<longrightarrow>
            m_swaps s2 = m_swaps s1 + (if rows_exchanged (m_matrix s1) (m_matrix s2) then 1 else 0) \<and>
            (rows_exchanged (m_matrix s1) (m_matrix s2) \<longleftrightarrow> index_best s1 p \<noteq> Inr p) \<and>
            pivot_step s1 p = Inr (eliminate s2 p)) \<and>
         m_swaps (fst (decompose t s)) = int (actual_interchanges (decompose_init t s) 0) \<and>
         m_order (decompose_init t s) = [0..<m_dim s] \<and>
         (\<forall>k sk. k \<le> m_dim s \<longrightarrow> steps (decompose_init t s) k = Inr sk \<longrightarrow>
            is_permutation (m_order sk) (m_dim s)) \<and>
         is_permutation (m_order (fst (decompose t s))) (m_dim s)"
proof -
  note fields = LUMatrix_new_fields [OF assms(1), of mem_matrix mem_order mem_tolerance,
      folded assms(3)]
  have init: "is_permutation (m_order (decompose_init t s)) (m_dim (decompose_init t s))"
    using fields by (intro decompose_init_permutation) simp
  have one: "m_swaps s2 = m_swaps s1 + (if rows_exchanged (m_matrix s1) (m_matrix s2) then 1 else 0) \<and>
            (rows_exchanged (m_matrix s1) (m_matrix s2) \<longleftrightarrow> index_best s1 p \<noteq> Inr p) \<and>
            pivot_step s1 p = Inr (eliminate s2 p)"
    if h: "length (m_matrix s1) = m_dim s1" "p < m_dim s1" "m_swaps s1 < 2147483647"
      "swap_part s1 p = Inr s2" for s1 p s2
  proof -
    from swap_part_Inr [OF h(4)] obtain sel where sel: "index_best s1 p = Inr sel" by blast
    from swap_part_exchanged [OF h(1,2) sel h(4)] sel
    have "rows_exchanged (m_matrix s1) (m_matrix s2) \<longleftrightarrow> index_best s1 p \<noteq> Inr p" by simp
    moreover from h(4) have "pivot_step s1 p = Inr (eliminate s2 p)"
      by (simp add: pivot_step_swap_part)
    ultimately show ?thesis using swap_part_swaps [OF h] by simp
  qed
  have count: "m_swaps (fst (decompose t s)) = int (actual_interchanges (decompose_init t s) 0)"
    using pivot_loop_swaps [of "decompose_init t s" 0] fields assms(1,2)
    by (simp add: decompose_def)
  have every: "\<forall>k sk. k \<le> m_dim s \<longrightarrow> steps (decompose_init t s) k = Inr sk \<longrightarrow>
            is_permutation (m_order sk) (m_dim s)"
    using steps_permutation [of "decompose_init t s"] init by auto
  have final: "is_permutation (m_order (fst (decompose t s))) (m_dim s)"
    using pivot_loop_permutation [of "decompose_init t s" 0] init
    by (simp add: decompose_def)
  have identity: "m_order (decompose_init t s) = [0..<m_dim s]"
    using fields by (simp add: decompose_init_def init_order_identity)
  from one count identity every final show ?thesis by blast
qed

theorem swap_count_and_permutation_witness:
  "(1 :: int) \<le> 2 \<and> (2 :: int) \<le> 2147483647 \<and>
   m_swaps (fst (decompose (Fin 0)
     (fst (LUMatrix_new 2 (\<lambda>i j. if i = j then Fin 0 else Fin 1) (\<lambda>i. 0) (Fin 0))))) = 1 \<and>
   is_permutation (m_order (fst (decompose (Fin 0)
     (fst (LUMatrix_new 2 (\<lambda>i j. if i = j then Fin 0 else Fin 1) (\<lambda>i. 0) (Fin 0)))))) 2"
proof -
  let ?s = "fst (LUMatrix_new 2 (\<lambda>i j. if i = j then Fin 0 else Fin 1) (\<lambda>i. 0) (Fin 0))"
  have n1: "(1 :: int) \<le> 2" and n2: "(2 :: int) \<le> 2147483647"
    by simp_all
  have dim: "m_dim ?s = 2"
    by (simp add: LUMatrix_new_def)
  have count: "actual_interchanges (decompose_init (Fin 0) ?s) 0 = 1"
    by code_simp
  from swap_count_and_permutation [OF n1 n2 refl, of _ _ _ "Fin 0"]
  have "m_swaps (fst (decompose (Fin 0) ?s)) =
          int (actual_interchanges (decompose_init (Fin 0) ?s) 0)"
    and "is_permutation (m_order (fst (decompose (Fin 0) ?s))) (m_dim ?s)"
    by blast+
  with n1 n2 dim count show ?thesis by simp
qed

text \<open>
  C3. An object constructed for \<open>n \<ge> 1\<close> and filled with the identity matrix, decomposed
  with a tolerance below 1: no exception is caught, the matrix is still the identity
  (the multipliers below the diagonal are 0, the entries on and above it are those of
  the identity), \<^verbatim>\<open>_swaps\<close> is 0 and the permutation is \<open>[0, \<dots>, n-1]\<close>. Every operation of
  the run is on the numbers 0 and 1.
\<close>

theorem identity_decomposition:
  assumes "1 \<le> n" and "vless t (Fin 1)"
    and "s = fst (LUMatrix_new n (\<lambda>i j. if i = j then Fin 1 else Fin 0) mem_order mem_tolerance)"
  shows "snd (decompose t s) = None \<and>
         m_matrix (fst (decompose t s)) =
           map (\<lambda>i. map (\<lambda>j. if i = j then Fin 1 else Fin 0) [0..<nat n]) [0..<nat n] \<and>
         m_swaps (fst (decompose t s)) = 0 \<and>
         m_order (fst (decompose t s)) = [0..<nat n]"
proof -
  let ?s0 = "decompose_init t s"
  from assms(1,3) have dim: "m_dim s = nat n" and swaps: "m_swaps s = 0"
    and ord: "length (m_order s) = nat n"
    and mat: "m_matrix s = map (\<lambda>i. map (\<lambda>j. if i = j then Fin 1 else Fin 0) [0..<nat n]) [0..<nat n]"
    by (simp_all add: LUMatrix_new_def)
  have rep: "represents ?s0 (identity_matrix (m_dim ?s0))"
    by (rule represents_identity) (simp add: mat dim)
  have tol: "\<not> vless (Fin 1) (m_tolerance ?s0)"
    using assms(2) by (simp add: decompose_init_def vless_asym)
  have "decompose t s = (?s0, None)"
    unfolding decompose_def using rep tol by (rule pivot_loop_identity)
  moreover have "m_order ?s0 = [0..<nat n]"
    using ord dim by (simp add: decompose_init_def init_order_identity)
  ultimately show ?thesis
    using mat swaps by simp
qed

theorem identity_decomposition_witness:
  "(1 :: int) \<le> 2 \<and> vless (Fin 0) (Fin 1) \<and>
   snd (decompose (Fin 0)
     (fst (LUMatrix_new 2 (\<lambda>i j. if i = j then Fin 1 else Fin 0) (\<lambda>i. 0) (Fin 0)))) = None \<and>
   m_swaps (fst (decompose (Fin 0)
     (fst (LUMatrix_new 2 (\<lambda>i j. if i = j then Fin 1 else Fin 0) (\<lambda>i. 0) (Fin 0))))) = 0"
proof -
  have n: "(1 :: int) \<le> 2" and t: "vless (Fin 0) (Fin 1)"
    by simp_all
  from identity_decomposition [OF n t refl, of "\<lambda>i. 0" "Fin 0"] n t show ?thesis
    by simp
qed

end
